theory Spec2Isabelle
  imports Main
begin

section \<open>Data model\<close>

text \<open>
  The \<^verbatim>\<open>ShortLink\<close> interface of \<^verbatim>\<open>types.ts\<close>. The field \<^verbatim>\<open>id\<close> is called
  \<open>linkId\<close> here, because \<open>id\<close> is the identity function of HOL. Optional fields are
  options. The two \<^verbatim>\<open>number\<close> fields hold an epoch in milliseconds and a counter:
  numbers whose value is an integer. A number of the runtime is a double, and what the
  program computes with the two fields is written out below with the rounding of doubles.
\<close>

record ShortLink =
  linkId :: string
  slug :: string
  originalUrl :: string
  description :: "string option"
  createdAt :: int
  clicks :: int
  tags :: "string list option"

text \<open>
  \<^verbatim>\<open>AppSettings\<close>, as the settings dialog and \<^verbatim>\<open>App.tsx\<close> use it: two optional strings.
  The object \<^verbatim>\<open>{}\<close> has neither.
\<close>

record AppSettings =
  customBaseUrl :: "string option"
  googleAnalyticsId :: "string option"

definition emptySettings :: AppSettings where
  "emptySettings = \<lparr>customBaseUrl = None, googleAnalyticsId = None\<rparr>"

section \<open>The runtime: exceptions, JSON, Map, Array.prototype.sort\<close>

datatype fault = SyntaxError | URIError

text \<open>
  A string held by \<^verbatim>\<open>localStorage\<close>, seen through what \<^verbatim>\<open>JSON.parse\<close> does with it:
  the empty string, a text that is not JSON, or the encoding of a value.
  \<^verbatim>\<open>JSON.stringify\<close> produces the encoding, and parsing it gives the value back.
\<close>

datatype 'a stored = Blank | Malformed | Encoded 'a

fun JSON_parse :: "'a stored \<Rightarrow> fault + 'a" where
  "JSON_parse Blank = Inl SyntaxError"
| "JSON_parse Malformed = Inl SyntaxError"
| "JSON_parse (Encoded v) = Inr v"

definition JSON_stringify :: "'a \<Rightarrow> 'a stored" where
  "JSON_stringify v = Encoded v"

text \<open>
  \<^verbatim>\<open>localStorage\<close> with its two keys; \<open>None\<close> is the \<^verbatim>\<open>null\<close> that \<^verbatim>\<open>getItem\<close>
  returns for a key that was never written.
\<close>

record localStorage =
  macshorty_links_v1 :: "ShortLink list stored option"
  macshorty_settings_v1 :: "AppSettings stored option"

text \<open>
  A \<^verbatim>\<open>Map\<close> keeps its entries in the order in which their keys were first inserted;
  \<^verbatim>\<open>set\<close> on a key that is present replaces the value where it stands.
\<close>

type_synonym ('k, 'v) Map = "('k \<times> 'v) list"

fun Map_set :: "'k \<Rightarrow> 'v \<Rightarrow> ('k, 'v) Map \<Rightarrow> ('k, 'v) Map" where
  "Map_set k v [] = [(k, v)]"
| "Map_set k v ((k', v') # m) =
     (if k' = k then (k, v) # m else (k', v') # Map_set k v m)"

definition Map_values :: "('k, 'v) Map \<Rightarrow> 'v list" where
  "Map_values m = map snd m"

text \<open>
  \<^verbatim>\<open>Array.prototype.sort\<close> with a comparator is stable: an element moves in front of
  another one only when the comparator is positive on them in their original order.
  Insertion from the right end gives that order.
\<close>

fun insertSorted :: "('a \<Rightarrow> 'a \<Rightarrow> int) \<Rightarrow> 'a \<Rightarrow> 'a list \<Rightarrow> 'a list" where
  "insertSorted cmp x [] = [x]"
| "insertSorted cmp x (y # ys) =
     (if cmp x y \<le> 0 then x # y # ys else y # insertSorted cmp x ys)"

definition Array_sort :: "('a \<Rightarrow> 'a \<Rightarrow> int) \<Rightarrow> 'a list \<Rightarrow> 'a list" where
  "Array_sort cmp xs = foldr (insertSorted cmp) xs []"

text \<open>
  Numbers. A double holds every integer up to \<open>2 ^ 53\<close> in magnitude; beyond, it holds the
  multiples of a power of two, 53 binary digits long. \<open>ulp n\<close> is that power of two at the
  magnitude \<open>n\<close>, and \<open>nearestDouble n\<close> the magnitude that a double takes for \<open>n\<close>: the
  nearest multiple, the one with the even quotient when two are equally near.
\<close>

function ulp :: "nat \<Rightarrow> nat" where
  "ulp n = (if n < 2 ^ 53 then 1 else 2 * ulp (n div 2))"
  by pat_completeness auto
termination
proof (relation "measure (\<lambda>n. n)")
  show "wf (measure (\<lambda>n. n))" by simp
next
  fix n :: nat
  assume "\<not> n < 2 ^ 53"
  then have "0 < n" by (cases "n = 0") simp_all
  then show "(n div 2, n) \<in> measure (\<lambda>n. n)" by simp
qed

declare ulp.simps [simp del]

definition nearestDouble :: "nat \<Rightarrow> nat" where
  "nearestDouble n =
     (let u = ulp n; q = n div u; r = n mod u
      in if 2 * r < u then q * u
         else if u < 2 * r then (q + 1) * u
         else if even q then q * u
         else (q + 1) * u)"

definition toDouble :: "int \<Rightarrow> int" where
  "toDouble x = (if x < 0 then - int (nearestDouble (nat (- x))) else int (nearestDouble (nat x)))"

text \<open>
  \<^verbatim>\<open>a + b\<close> on two numbers whose values are integers: the double nearest to the sum.
  (The sum of two doubles is below the magnitude at which a double becomes infinite
  whenever one of them is 1.)
\<close>

definition numberAdd :: "int \<Rightarrow> int \<Rightarrow> int" where
  "numberAdd a b = toDouble (a + b)"

text \<open>\<^verbatim>\<open>Number.isSafeInteger\<close>: the integers below \<open>2 ^ 53\<close> in magnitude.\<close>

definition safeInteger :: "int \<Rightarrow> bool" where
  "safeInteger x = (\<bar>x\<bar> < 2 ^ 53)"

text \<open>\<^verbatim>\<open>findIndex\<close>: the index of the first element that satisfies the test, or -1.\<close>

fun findIndex :: "('a \<Rightarrow> bool) \<Rightarrow> 'a list \<Rightarrow> int" where
  "findIndex P [] = - 1"
| "findIndex P (x # xs) =
     (if P x then 0 else (let i = findIndex P xs in if i < 0 then - 1 else i + 1))"

section \<open>services/storage.ts\<close>

text \<open>
  \<^verbatim>\<open>getLinks\<close>: the body of the \<^verbatim>\<open>try\<close> block, which may throw, and the function with
  its \<^verbatim>\<open>catch\<close>. A stored string is falsy when it is empty.
\<close>

definition getLinks_try :: "localStorage \<Rightarrow> fault + ShortLink list" where
  "getLinks_try st =
     (case macshorty_links_v1 st of
        None \<Rightarrow> Inr []
      | Some stored \<Rightarrow> if stored = Blank then Inr [] else JSON_parse stored)"

definition getLinks :: "localStorage \<Rightarrow> ShortLink list" where
  "getLinks st = (case getLinks_try st of Inl e \<Rightarrow> [] | Inr links \<Rightarrow> links)"

definition saveLink :: "ShortLink \<Rightarrow> localStorage \<Rightarrow> localStorage" where
  "saveLink link st =
     (let links = getLinks st;
          existingIndex = findIndex (\<lambda>l. linkId l = linkId link) links;
          links' = (if existingIndex \<ge> 0 then links[nat existingIndex := link]
                    else link # links)
      in st\<lparr>macshorty_links_v1 := Some (JSON_stringify links')\<rparr>)"

definition deleteLink :: "string \<Rightarrow> localStorage \<Rightarrow> localStorage" where
  "deleteLink i st =
     (let links = filter (\<lambda>l. linkId l \<noteq> i) (getLinks st)
      in st\<lparr>macshorty_links_v1 := Some (JSON_stringify links)\<rparr>)"

definition incrementClicks :: "string \<Rightarrow> localStorage \<Rightarrow> localStorage" where
  "incrementClicks i st =
     (let links = getLinks st
      in case find (\<lambda>l. linkId l = i) links of
           Some link \<Rightarrow> saveLink (link\<lparr>clicks := numberAdd (clicks link) 1\<rparr>) st
         | None \<Rightarrow> st)"

definition getSettings_try :: "localStorage \<Rightarrow> fault + AppSettings" where
  "getSettings_try st =
     (case macshorty_settings_v1 st of
        None \<Rightarrow> Inr emptySettings
      | Some stored \<Rightarrow> if stored = Blank then Inr emptySettings else JSON_parse stored)"

definition getSettings :: "localStorage \<Rightarrow> AppSettings" where
  "getSettings st = (case getSettings_try st of Inl e \<Rightarrow> emptySettings | Inr s \<Rightarrow> s)"

section \<open>App.tsx: merging the baseline and the local store\<close>

text \<open>\<^verbatim>\<open>ls.forEach(l => linkMap.set(l.id, l))\<close>\<close>

definition forEach_set :: "ShortLink list \<Rightarrow> (string, ShortLink) Map \<Rightarrow> (string, ShortLink) Map" where
  "forEach_set ls linkMap = fold (\<lambda>l. Map_set (linkId l) l) ls linkMap"

text \<open>The merge inside \<^verbatim>\<open>initApp\<close>: the baseline first, the local records over it.\<close>

definition mergeLinks :: "ShortLink list \<Rightarrow> ShortLink list \<Rightarrow> ShortLink list" where
  "mergeLinks staticLinks mergedLinks =
     Map_values (forEach_set mergedLinks (forEach_set staticLinks []))"

text \<open>
  The comparator \<^verbatim>\<open>(a, b) => b.createdAt - a.createdAt\<close>. The sort reads its sign only,
  and the difference of two doubles has the sign of the exact difference.
\<close>

definition newestFirst :: "ShortLink \<Rightarrow> ShortLink \<Rightarrow> int" where
  "newestFirst a b = createdAt b - createdAt a"

text \<open>The merge followed by the sort, as \<^verbatim>\<open>initApp\<close> runs them when the baseline was fetched.\<close>

definition merge :: "ShortLink list \<Rightarrow> ShortLink list \<Rightarrow> ShortLink list" where
  "merge B L = Array_sort newestFirst (mergeLinks B L)"

section \<open>The runtime: decodeURIComponent\<close>

text \<open>
  A string is the list of the bytes of its UTF-8 encoding. \<^verbatim>\<open>decodeURIComponent\<close>
  copies every character other than \<^verbatim>\<open>%\<close>; at a \<^verbatim>\<open>%\<close> it reads two hexadecimal
  digits, an octet, and, when the octet opens a sequence of several octets, as many further
  escapes as the sequence has octets. It throws \<^verbatim>\<open>URIError\<close> when the digits are
  missing, when an octet cannot open a sequence, when an escape of the sequence is missing
  and when the octets are not the encoding of a code point. The octets of a code point
  are its bytes in the decoded string.
\<close>

definition hexDigit :: "char \<Rightarrow> nat option" where
  "hexDigit c =
     (let n = (of_char c :: nat)
      in if 48 \<le> n \<and> n \<le> 57 then Some (n - 48)
         else if 65 \<le> n \<and> n \<le> 70 then Some (n - 55)
         else if 97 \<le> n \<and> n \<le> 102 then Some (n - 87)
         else None)"

text \<open>The number of octets of the sequence that an octet opens.\<close>

definition octetCount :: "nat \<Rightarrow> nat option" where
  "octetCount b =
     (if b < 128 then Some 1
      else if 192 \<le> b \<and> b < 224 then Some 2
      else if 224 \<le> b \<and> b < 240 then Some 3
      else if 240 \<le> b \<and> b < 248 then Some 4
      else None)"

definition continuation :: "nat \<Rightarrow> bool" where
  "continuation b = (128 \<le> b \<and> b < 192)"

fun validEncoding :: "nat list \<Rightarrow> bool" where
  "validEncoding [b1] = (b1 < 128)"
| "validEncoding [b1, b2] = (194 \<le> b1 \<and> b1 < 224 \<and> continuation b2)"
| "validEncoding [b1, b2, b3] =
     ((if b1 = 224 then 160 \<le> b2 \<and> b2 < 192
       else if b1 = 237 then 128 \<le> b2 \<and> b2 < 160
       else 225 \<le> b1 \<and> b1 < 240 \<and> continuation b2) \<and> continuation b3)"
| "validEncoding [b1, b2, b3, b4] =
     ((if b1 = 240 then 144 \<le> b2 \<and> b2 < 192
       else if b1 = 244 then 128 \<le> b2 \<and> b2 < 144
       else 241 \<le> b1 \<and> b1 < 244 \<and> continuation b2) \<and> continuation b3 \<and> continuation b4)"
| "validEncoding bs = False"

definition emit :: "nat list \<Rightarrow> fault + string \<Rightarrow> fault + string" where
  "emit bs r = (case r of Inl e \<Rightarrow> Inl e | Inr t \<Rightarrow> Inr (map char_of bs @ t))"

text \<open>
  \<open>Decode n bs s\<close> decodes \<open>s\<close> when \<open>n\<close> further octets of the current sequence are
  expected and \<open>bs\<close> are the octets of it read so far.
\<close>

fun Decode :: "nat \<Rightarrow> nat list \<Rightarrow> string \<Rightarrow> fault + string" where
  "Decode n bs [] = (if n = 0 then Inr [] else Inl URIError)"
| "Decode n bs (c # cs) =
     (if c = CHR ''%'' then
        (case cs of
           h1 # h2 # rest \<Rightarrow>
             (case hexDigit h1 of
                None \<Rightarrow> Inl URIError
              | Some d1 \<Rightarrow>
                 (case hexDigit h2 of
                    None \<Rightarrow> Inl URIError
                  | Some d2 \<Rightarrow>
                     (let b = 16 * d1 + d2
                      in if n = 0 then
                           (case octetCount b of
                              None \<Rightarrow> Inl URIError
                            | Some k \<Rightarrow>
                               if k = 1 then emit [b] (Decode 0 [] rest)
                               else Decode (k - 1) [b] rest)
                         else if n = 1 then
                           (if validEncoding (bs @ [b]) then emit (bs @ [b]) (Decode 0 [] rest)
                            else Inl URIError)
                         else Decode (n - 1) (bs @ [b]) rest)))
         | _ \<Rightarrow> Inl URIError)
      else if n = 0 then emit [of_char c] (Decode 0 [] cs)
      else Inl URIError)"

definition decodeURIComponent :: "string \<Rightarrow> fault + string" where
  "decodeURIComponent s = Decode 0 [] s"

section \<open>App.tsx: the state of the component and the bootstrap\<close>

text \<open>
  The state that \<^verbatim>\<open>App\<close> keeps with \<^verbatim>\<open>useState\<close>, and around it what a run touches:
  \<^verbatim>\<open>localStorage\<close>, the call of \<^verbatim>\<open>trackRedirect\<close> (measurement id, slug, target), the
  address that the timer passes to \<^verbatim>\<open>window.location.replace\<close>, and the exception that
  ended \<^verbatim>\<open>initApp\<close>, if one did. \<^verbatim>\<open>redirectData\<close> is the pair of target and slug.
\<close>

record 'm App =
  mode :: 'm
  links :: "ShortLink list"
  settings :: AppSettings
  redirectData :: "(string \<times> string) option"
  storage :: localStorage
  tracked :: "(string \<times> string \<times> string) option"
  replaced :: "string option"
  uncaught :: "fault option"

definition mount :: "'m \<Rightarrow> localStorage \<Rightarrow> 'm App" where
  "mount m st =
     \<lparr>mode = m, links = [], settings = emptySettings, redirectData = None, storage = st,
      tracked = None, replaced = None, uncaught = None\<rparr>"

text \<open>
  The latest revision of \<^verbatim>\<open>App.tsx\<close>: the one that imports the analytics service and
  passes \<^verbatim>\<open>gaConfigured\<close> to \<^verbatim>\<open>LinkCard\<close>, which requires it. Its modes:
\<close>

datatype AppMode = BOOTSTRAP | DASHBOARD | REDIRECT_PROCESS | NOT_FOUND

text \<open>
  \<^verbatim>\<open>initApp\<close>. \<open>fetched\<close> is the array that \<^verbatim>\<open>fetch('./db.json')\<close> delivered, \<open>None\<close>
  when the response was not ok or the \<^verbatim>\<open>try\<close> block threw; \<open>rawHash\<close> is
  \<^verbatim>\<open>window.location.hash.substring(1)\<close>. The detection of the address of the page and the
  start of the analytics script do not touch what follows and are left out.
\<close>

definition initApp :: "ShortLink list option \<Rightarrow> string \<Rightarrow> localStorage \<Rightarrow> AppMode App" where
  "initApp fetched rawHash st =
     (let loadedSettings = getSettings st;
          local = getLinks st;
          mergedLinks = Array_sort newestFirst
            (case fetched of
               Some staticLinks \<Rightarrow> mergeLinks staticLinks local
             | None \<Rightarrow> local);
          app = (mount BOOTSTRAP st)\<lparr>settings := loadedSettings, links := mergedLinks\<rparr>
      in if rawHash \<noteq> [] then
           (case decodeURIComponent rawHash of
              Inl e \<Rightarrow> app\<lparr>uncaught := Some e\<rparr>
            | Inr hash \<Rightarrow>
               (case find (\<lambda>l. slug l = hash) mergedLinks of
                  Some match \<Rightarrow>
                    app\<lparr>redirectData := Some (originalUrl match, slug match),
                        mode := REDIRECT_PROCESS,
                        storage := incrementClicks (linkId match) st,
                        tracked :=
                          (case googleAnalyticsId loadedSettings of
                             None \<Rightarrow> None
                           | Some ga \<Rightarrow>
                              if ga \<noteq> [] then Some (ga, slug match, originalUrl match)
                              else None),
                        replaced := Some (originalUrl match)\<rparr>
                | None \<Rightarrow> app\<lparr>mode := NOT_FOUND\<rparr>))
         else app\<lparr>mode := DASHBOARD\<rparr>)"

text \<open>
  The revision in \<^verbatim>\<open>src/App.tsx\<close>, older: no analytics, and three modes only, none for
  a slug that is not found. The merge, the sort, the decoding and the lookup are the same
  lines.
\<close>

datatype AppMode_src = LOADING | DASHBOARD_src | REDIRECTING

definition initApp_src :: "ShortLink list option \<Rightarrow> string \<Rightarrow> localStorage \<Rightarrow> AppMode_src App" where
  "initApp_src fetched rawHash st =
     (let loadedSettings = getSettings st;
          local = getLinks st;
          mergedLinks = Array_sort newestFirst
            (case fetched of
               Some staticLinks \<Rightarrow> mergeLinks staticLinks local
             | None \<Rightarrow> local);
          app = (mount LOADING st)\<lparr>settings := loadedSettings, links := mergedLinks\<rparr>
      in if rawHash \<noteq> [] then
           (case decodeURIComponent rawHash of
              Inl e \<Rightarrow> app\<lparr>uncaught := Some e\<rparr>
            | Inr hash \<Rightarrow>
               (case find (\<lambda>l. slug l = hash) mergedLinks of
                  Some match \<Rightarrow>
                    app\<lparr>redirectData := Some (originalUrl match, slug match),
                        mode := REDIRECTING,
                        storage := incrementClicks (linkId match) st,
                        replaced := Some (originalUrl match)\<rparr>
                | None \<Rightarrow> app\<lparr>mode := DASHBOARD_src\<rparr>))
         else app\<lparr>mode := DASHBOARD_src\<rparr>)"

section \<open>App.tsx: the actions of the dashboard\<close>

definition refreshLinks :: "'m App \<Rightarrow> 'm App" where
  "refreshLinks app =
     (let local = getLinks (storage app);
          prev = links app
      in app\<lparr>links :=
           Array_sort newestFirst (Map_values (forEach_set local (forEach_set prev [])))\<rparr>)"

text \<open>\<open>confirmed\<close> is the answer of \<^verbatim>\<open>window.confirm\<close>.\<close>

definition handleDelete :: "bool \<Rightarrow> string \<Rightarrow> 'm App \<Rightarrow> 'm App" where
  "handleDelete confirmed i app =
     (if confirmed then refreshLinks (app\<lparr>storage := deleteLink i (storage app)\<rparr>)
      else app)"

section \<open>Reading a collection\<close>

text \<open>The record that \<^verbatim>\<open>find(l => l.id === id)\<close> selects, and its counter.\<close>

definition recordOf :: "string \<Rightarrow> ShortLink list \<Rightarrow> ShortLink option" where
  "recordOf i ls = find (\<lambda>l. linkId l = i) ls"

definition clicksOf :: "string \<Rightarrow> ShortLink list \<Rightarrow> int option" where
  "clicksOf i ls = map_option clicks (recordOf i ls)"

definition ids :: "ShortLink list \<Rightarrow> string list" where
  "ids ls = map linkId ls"

text \<open>Each key once, at the place of its first occurrence: the order of the keys of a Map.\<close>

definition insertionOrder :: "'a list \<Rightarrow> 'a list" where
  "insertionOrder ks = rev (remdups (rev ks))"

section \<open>Scenarios\<close>

text \<open>
  A baseline record, and the record of the local store with the same id and five clicks;
  an older record with another id and the same slug; a newer record whose slug differs
  from it by case only; a record whose counter stands at \<open>2 ^ 53\<close>. Three contents of the
  store.
\<close>

definition baselineLink :: ShortLink where
  "baselineLink =
     \<lparr>linkId = ''1'', slug = ''abc'', originalUrl = ''https://x.com'', description = None,
      createdAt = 100, clicks = 0, tags = None\<rparr>"

definition localLink :: ShortLink where
  "localLink = baselineLink\<lparr>clicks := 5\<rparr>"

definition otherLink :: ShortLink where
  "otherLink =
     \<lparr>linkId = ''2'', slug = ''abc'', originalUrl = ''https://y.org'', description = None,
      createdAt = 50, clicks = 0, tags = None\<rparr>"

definition upperLink :: ShortLink where
  "upperLink =
     \<lparr>linkId = ''3'', slug = ''ABC'', originalUrl = ''https://z.net'', description = None,
      createdAt = 200, clicks = 0, tags = None\<rparr>"

definition hugeLink :: ShortLink where
  "hugeLink = baselineLink\<lparr>clicks := 9007199254740992\<rparr>"

definition storeOf :: "ShortLink list \<Rightarrow> localStorage" where
  "storeOf ls =
     \<lparr>macshorty_links_v1 = Some (JSON_stringify ls), macshorty_settings_v1 = None\<rparr>"

definition emptyStore :: localStorage where
  "emptyStore = \<lparr>macshorty_links_v1 = None, macshorty_settings_v1 = None\<rparr>"

definition corruptStore :: localStorage where
  "corruptStore = \<lparr>macshorty_links_v1 = Some Malformed, macshorty_settings_v1 = Some Malformed\<rparr>"

section \<open>Numbers\<close>

lemma ulp_small: "n < 2 ^ 53 \<Longrightarrow> ulp n = 1"
  by (subst ulp.simps) simp

lemma nearestDouble_small: "n < 2 ^ 53 \<Longrightarrow> nearestDouble n = n"
  by (simp add: nearestDouble_def ulp_small)

lemma toDouble_safe: "safeInteger x \<Longrightarrow> toDouble x = x"
proof (cases "x < 0")
  case True
  assume "safeInteger x"
  then have "nat (- x) < 2 ^ 53" using True by (simp add: safeInteger_def nat_less_iff)
  then show ?thesis using True by (simp add: toDouble_def nearestDouble_small)
next
  case False
  assume "safeInteger x"
  then have "nat x < 2 ^ 53" using False by (simp add: safeInteger_def nat_less_iff)
  then show ?thesis using False by (simp add: toDouble_def nearestDouble_small)
qed

lemma numberAdd_safe: "safeInteger (a + b) \<Longrightarrow> numberAdd a b = a + b"
  by (simp add: numberAdd_def toDouble_safe)

text \<open>At \<open>2 ^ 53\<close> the doubles are two apart, and \<open>2 ^ 53 + 1\<close> rounds back to \<open>2 ^ 53\<close>.\<close>

lemma ulp_above: "ulp 9007199254740993 = 2"
  by (subst ulp.simps) (simp add: ulp_small)

lemma numberAdd_limit: "numberAdd 9007199254740992 1 = 9007199254740992"
  by (simp add: numberAdd_def toDouble_def nearestDouble_def ulp_above Let_def)

section \<open>The sort and the Map\<close>

lemma insertSorted_insort_key:
  "insertSorted newestFirst x xs = insort_key (\<lambda>l. - createdAt l) x xs"
  by (induction xs) (auto simp: newestFirst_def)

lemma Array_sort_sort_key:
  "Array_sort newestFirst xs = sort_key (\<lambda>l. - createdAt l) xs"
  by (induction xs) (simp_all add: Array_sort_def insertSorted_insort_key)

lemma distinct_map_insort_key:
  "distinct (map g (insort_key f x xs)) = (g x \<notin> g ` set xs \<and> distinct (map g xs))"
  by (induction xs) (auto simp: set_insort_key)

lemma distinct_map_sort_key: "distinct (map g (sort_key f xs)) = distinct (map g xs)"
  by (induction xs) (simp_all add: distinct_map_insort_key)

lemma sorted_newest:
  "sorted_wrt (\<lambda>a b. createdAt b \<le> createdAt a) (Array_sort newestFirst xs)"
proof -
  have "sorted (map (\<lambda>l. - createdAt l) (sort_key (\<lambda>l. - createdAt l) xs))"
    by (rule sorted_sort_key)
  then show ?thesis by (simp add: Array_sort_sort_key sorted_map)
qed

lemma Array_sort_stable:
  "filter (\<lambda>l. createdAt l = t) (Array_sort newestFirst xs) = filter (\<lambda>l. createdAt l = t) xs"
  using sort_key_stable [of "\<lambda>l. - createdAt l" "- t" xs]
  by (simp add: Array_sort_sort_key)

lemma find_append:
  "find P (xs @ ys) = (case find P xs of None \<Rightarrow> find P ys | Some x \<Rightarrow> Some x)"
  by (induction xs) simp_all

lemma find_first:
  "xs = pre @ m # post \<Longrightarrow> P m \<Longrightarrow> \<forall>l \<in> set pre. \<not> P l \<Longrightarrow> find P xs = Some m"
  by (simp add: find_append find_None_iff [THEN iffD2] split: option.splits)

lemma keys_Map_set:
  "map fst (Map_set k v m) = (if k \<in> fst ` set m then map fst m else map fst m @ [k])"
proof (induction m)
  case Nil
  show ?case by simp
next
  case (Cons p m)
  show ?case
  proof (cases "fst p = k")
    case True
    then show ?thesis by (cases p) simp
  next
    case False
    then show ?thesis using Cons.IH by (cases p) auto
  qed
qed

lemma map_of_Map_set: "map_of (Map_set k v m) = (map_of m)(k \<mapsto> v)"
  by (induction m) (auto simp: fun_eq_iff)

lemma distinct_Map_set: "distinct (map fst m) \<Longrightarrow> distinct (map fst (Map_set k v m))"
  by (simp add: keys_Map_set)

lemma Map_set_fresh: "k \<notin> fst ` set m \<Longrightarrow> Map_set k v m = m @ [(k, v)]"
  by (induction m) auto

text \<open>
  Every entry of the map of links stands under the id of its record.
\<close>

lemma keyed_Map_set:
  "list_all (\<lambda>p. linkId (snd p) = fst p) m \<Longrightarrow>
   list_all (\<lambda>p. linkId (snd p) = fst p) (Map_set (linkId l) l m)"
  by (induction m) auto

lemma keyed_ids:
  "list_all (\<lambda>p. linkId (snd p) = fst p) m \<Longrightarrow> map linkId (Map_values m) = map fst m"
  by (induction m) (simp_all add: Map_values_def)

lemma keys_forEach_set:
  "fst ` set (forEach_set ls m) = fst ` set m \<union> linkId ` set ls"
  unfolding forEach_set_def
proof (induction ls arbitrary: m)
  case Nil
  show ?case by simp
next
  case (Cons l ls)
  have "fst ` set (Map_set (linkId l) l m) = insert (linkId l) (fst ` set m)"
    using keys_Map_set [of "linkId l" l m, THEN arg_cong, of set] by auto
  then show ?case using Cons.IH [of "Map_set (linkId l) l m"] by simp
qed

lemma distinct_forEach_set:
  "distinct (map fst m) \<Longrightarrow> distinct (map fst (forEach_set ls m))"
  unfolding forEach_set_def
  by (induction ls arbitrary: m) (simp_all add: distinct_Map_set)

lemma keyed_forEach_set:
  "list_all (\<lambda>p. linkId (snd p) = fst p) m \<Longrightarrow>
   list_all (\<lambda>p. linkId (snd p) = fst p) (forEach_set ls m)"
  unfolding forEach_set_def
  by (induction ls arbitrary: m) (simp_all add: keyed_Map_set)

lemma map_of_forEach_set:
  "map_of (forEach_set ls m) k =
     (case find (\<lambda>l. linkId l = k) (rev ls) of Some l \<Rightarrow> Some l | None \<Rightarrow> map_of m k)"
  unfolding forEach_set_def
proof (induction ls arbitrary: m)
  case Nil
  show ?case by simp
next
  case (Cons l ls)
  show ?case
    by (cases "find (\<lambda>l. linkId l = k) (rev ls)")
       (simp_all add: Cons.IH map_of_Map_set find_append)
qed

lemma remdups_snoc: "remdups (ys @ [x]) = remdups (filter (\<lambda>y. y \<noteq> x) ys) @ [x]"
  by (induction ys) auto

lemma insertionOrder_Cons:
  "insertionOrder (x # xs) = x # insertionOrder (filter (\<lambda>y. y \<noteq> x) xs)"
  by (simp add: insertionOrder_def remdups_snoc rev_filter)

lemma insertionOrder_Nil: "insertionOrder [] = []"
  by (simp add: insertionOrder_def)

lemma keys_forEach_set_order:
  "map fst (forEach_set ls m) =
     map fst m @ insertionOrder (filter (\<lambda>k. k \<notin> fst ` set m) (map linkId ls))"
  unfolding forEach_set_def
proof (induction ls arbitrary: m)
  case Nil
  show ?case by (simp add: insertionOrder_Nil)
next
  case (Cons l ls)
  let ?m = "Map_set (linkId l) l m"
  have set_m: "fst ` set ?m = insert (linkId l) (fst ` set m)"
    using keys_Map_set [of "linkId l" l m, THEN arg_cong, of set] by auto
  show ?case
  proof (cases "linkId l \<in> fst ` set m")
    case True
    then have "map fst ?m = map fst m" by (simp add: keys_Map_set)
    moreover have "fst ` set ?m = fst ` set m" using True set_m by auto
    ultimately show ?thesis using Cons.IH [of ?m] True by simp
  next
    case False
    then have "map fst ?m = map fst m @ [linkId l]" by (simp add: keys_Map_set)
    moreover have "(\<lambda>k. k \<notin> fst ` set ?m) = (\<lambda>k. k \<notin> fst ` set m \<and> k \<noteq> linkId l)"
      using set_m by auto
    ultimately show ?thesis using Cons.IH [of ?m] False
      by (simp add: insertionOrder_Cons)
  qed
qed

lemma keys_forEach_set_within:
  "linkId ` set ls \<subseteq> fst ` set m \<Longrightarrow> map fst (forEach_set ls m) = map fst m"
proof -
  assume "linkId ` set ls \<subseteq> fst ` set m"
  then have "filter (\<lambda>k. k \<notin> fst ` set m) (map linkId ls) = []"
    by (auto simp: filter_empty_conv)
  then show ?thesis by (simp add: keys_forEach_set_order insertionOrder_Nil)
qed

lemma forEach_set_fresh:
  "distinct (map linkId ls) \<Longrightarrow> linkId ` set ls \<inter> fst ` set m = {} \<Longrightarrow>
   forEach_set ls m = m @ map (\<lambda>l. (linkId l, l)) ls"
  unfolding forEach_set_def
proof (induction ls arbitrary: m)
  case Nil
  show ?case by simp
next
  case (Cons l ls)
  have fresh: "linkId l \<notin> fst ` set m" using Cons.prems(2) by auto
  have "linkId ` set ls \<inter> fst ` set (m @ [(linkId l, l)]) = {}"
    using Cons.prems by auto
  then show ?case using Cons.IH [of "m @ [(linkId l, l)]"] Cons.prems(1) fresh
    by (simp add: Map_set_fresh)
qed

lemma assoc_eqI:
  "map fst xs = map fst ys \<Longrightarrow> distinct (map fst xs) \<Longrightarrow> map_of xs = map_of ys \<Longrightarrow> xs = ys"
proof (induction xs arbitrary: ys)
  case Nil
  then show ?case by simp
next
  case (Cons p xs)
  obtain q ys' where ys: "ys = q # ys'" using Cons.prems(1) by (cases ys) auto
  have k: "fst p = fst q" using Cons.prems(1) ys by simp
  have tl: "map fst xs = map fst ys'" using Cons.prems(1) ys by simp
  have at: "map_of (p # xs) a = map_of (q # ys') a" for a
    by (simp only: Cons.prems(3) ys)
  have pq: "p = q" using at [of "fst p"] k by (cases p; cases q) simp
  have fresh: "fst p \<notin> fst ` set xs" using Cons.prems(2) by simp
  have "fst ` set xs = fst ` set ys'" using tl [THEN arg_cong, of set] by simp
  then have fresh': "fst p \<notin> fst ` set ys'" using fresh by simp
  have "map_of xs = map_of ys'"
  proof
    fix a
    show "map_of xs a = map_of ys' a"
    proof (cases "a = fst p")
      case True
      have "map_of xs (fst p) = None" using fresh by (simp add: map_of_eq_None_iff)
      moreover have "map_of ys' (fst p) = None" using fresh' by (simp add: map_of_eq_None_iff)
      ultimately show ?thesis using True by simp
    next
      case False
      then show ?thesis using at [of a] pq by (cases q) simp
    qed
  qed
  then have "xs = ys'" using Cons.IH [of ys'] tl Cons.prems(2) by simp
  then show ?case using pq ys by simp
qed

lemma map_of_keyed_filter:
  "distinct (map fst m) \<Longrightarrow> list_all (\<lambda>p. linkId (snd p) = fst p) m \<Longrightarrow>
   map_of m i = Some r \<Longrightarrow> filter (\<lambda>l. linkId l = i) (map snd m) = [r]"
proof (induction m)
  case Nil
  then show ?case by simp
next
  case (Cons p m)
  show ?case
  proof (cases "fst p = i")
    case True
    have "\<forall>q \<in> set m. linkId (snd q) \<noteq> i"
      using Cons.prems(1,2) True by (auto simp: list_all_iff image_iff)
    then have "filter (\<lambda>l. linkId l = i) (map snd m) = []"
      by (auto simp: filter_empty_conv)
    then show ?thesis using Cons.prems True by (cases p) auto
  next
    case False
    then show ?thesis using Cons by (cases p) auto
  qed
qed

lemma map_of_tagged:
  "distinct (map linkId M) \<Longrightarrow> r \<in> set M \<Longrightarrow>
   map_of (map (\<lambda>l. (linkId l, l)) M) (linkId r) = Some r"
  by (induction M) (auto simp: image_iff)

section \<open>Records by id\<close>

lemma recordOf_rev_Some:
  "i \<in> set (ids L) \<Longrightarrow> \<exists>r. recordOf i (rev L) = Some r"
  by (cases "recordOf i (rev L)") (auto simp: recordOf_def ids_def find_None_iff)

lemma recordOf_rev_None: "i \<notin> linkId ` set L \<Longrightarrow> recordOf i (rev L) = None"
  by (auto simp: recordOf_def find_None_iff)

lemma recordOf_distinct_rev:
  "distinct (ids L) \<Longrightarrow> recordOf i (rev L) = recordOf i L"
proof (induction L)
  case Nil
  show ?case by simp
next
  case (Cons l L)
  show ?case
  proof (cases "linkId l = i")
    case True
    have "i \<notin> linkId ` set L" using Cons.prems True by (simp add: ids_def)
    then have "recordOf i (rev L) = None"
      by (auto simp: recordOf_def find_None_iff)
    then show ?thesis using True by (simp add: recordOf_def find_append)
  next
    case False
    then show ?thesis using Cons by (simp add: recordOf_def ids_def find_append split: option.splits)
  qed
qed

lemma recordOf_distinct_mem:
  "distinct (ids L) \<Longrightarrow> r \<in> set L \<Longrightarrow> recordOf (linkId r) L = Some r"
  by (induction L) (auto simp: recordOf_def ids_def image_iff)

lemma recordOf_split:
  "i \<notin> set (ids pre) \<Longrightarrow> recordOf j (pre @ x # post) =
     (case recordOf j pre of Some y \<Rightarrow> Some y
      | None \<Rightarrow> if linkId x = j then Some x else recordOf j post)"
  by (simp add: recordOf_def find_append split: option.splits)

lemma recordOf_pre_None: "i \<notin> set (ids pre) \<Longrightarrow> recordOf i pre = None"
  by (auto simp: recordOf_def ids_def find_None_iff)

section \<open>The scenarios\<close>

lemma localLink_fields:
  "linkId localLink = ''1''" "slug localLink = ''abc''" "clicks localLink = 5"
  "originalUrl localLink = ''https://x.com''"
  by (simp_all add: localLink_def baselineLink_def)

lemma hugeLink_fields: "linkId hugeLink = ''1''" "clicks hugeLink = 9007199254740992"
  by (simp_all add: hugeLink_def baselineLink_def)

lemma otherLink_fields: "linkId otherLink = ''2''" "slug otherLink = ''abc''" "clicks otherLink = 0"
  by (simp_all add: otherLink_def)

lemma getLinks_setItem [simp]:
  "getLinks (st\<lparr>macshorty_links_v1 := Some (JSON_stringify ls)\<rparr>) = ls"
  by (simp add: getLinks_def getLinks_try_def JSON_stringify_def)

lemma getLinks_storeOf [simp]: "getLinks (storeOf ls) = ls"
  by (simp add: storeOf_def getLinks_def getLinks_try_def JSON_stringify_def)

lemma decode_percent: "decodeURIComponent ''%'' = Inl URIError"
  by (simp add: decodeURIComponent_def)

lemma decode_zzz: "decodeURIComponent ''zzz'' = Inr ''zzz''"
  by code_simp

lemma decode_abc: "decodeURIComponent ''%61bc'' = Inr ''abc''"
  by code_simp

section \<open>The merged view\<close>

lemma ids_mergeLinks:
  "map linkId (mergeLinks B L) = map fst (forEach_set L (forEach_set B []))"
  by (simp add: mergeLinks_def keyed_ids keyed_forEach_set)

lemma distinct_ids_mergeLinks: "distinct (map linkId (mergeLinks B L))"
  by (simp add: ids_mergeLinks distinct_forEach_set)

lemma set_ids_mergeLinks: "linkId ` set (mergeLinks B L) = linkId ` set B \<union> linkId ` set L"
  using ids_mergeLinks [of B L, THEN arg_cong, of set]
  by (simp add: keys_forEach_set)

lemma map_of_mergeLinks:
  "map_of (forEach_set L (forEach_set B [])) i =
     (case recordOf i (rev L) of Some l \<Rightarrow> Some l | None \<Rightarrow> recordOf i (rev B))"
  by (simp add: map_of_forEach_set recordOf_def split: option.splits)

lemma filter_mergeLinks_map_of:
  assumes "map_of (forEach_set L (forEach_set B [])) i = Some r"
  shows "filter (\<lambda>l. linkId l = i) (mergeLinks B L) = [r]"
proof -
  let ?m = "forEach_set L (forEach_set B [])"
  have "distinct (map fst ?m)" by (simp add: distinct_forEach_set)
  moreover have "list_all (\<lambda>p. linkId (snd p) = fst p) ?m" by (simp add: keyed_forEach_set)
  ultimately show ?thesis
    unfolding mergeLinks_def Map_values_def using assms by (rule map_of_keyed_filter)
qed

lemma filter_mergeLinks:
  assumes "recordOf i (rev L) = Some r"
  shows "filter (\<lambda>l. linkId l = i) (mergeLinks B L) = [r]"
  by (rule filter_mergeLinks_map_of) (simp add: map_of_mergeLinks assms)

lemma filter_mergeLinks_baseline:
  assumes "recordOf i (rev L) = None" and "recordOf i (rev B) = Some r"
  shows "filter (\<lambda>l. linkId l = i) (mergeLinks B L) = [r]"
  by (rule filter_mergeLinks_map_of) (simp add: map_of_mergeLinks assms)

lemma distinct_ids_merge: "distinct (map linkId (merge B L))"
  by (simp add: merge_def Array_sort_sort_key distinct_map_sort_key distinct_ids_mergeLinks)

lemma set_ids_merge: "linkId ` set (merge B L) = linkId ` set B \<union> linkId ` set L"
  by (simp add: merge_def Array_sort_sort_key set_ids_mergeLinks)

lemma merge_record:
  assumes "find (\<lambda>l. linkId l = k) (rev L) = Some r"
  shows "r \<in> set (merge B L) \<and> linkId r = k"
proof -
  have "filter (\<lambda>l. linkId l = k) (mergeLinks B L) = [r]"
    using assms by (simp add: filter_mergeLinks recordOf_def)
  then have "r \<in> set (filter (\<lambda>l. linkId l = k) (mergeLinks B L))" by simp
  then show ?thesis by (simp add: merge_def Array_sort_sort_key)
qed

lemma sorted_merge: "Array_sort newestFirst (merge B L) = merge B L"
proof -
  have "sorted (map (\<lambda>l. - createdAt l) (sort_key (\<lambda>l. - createdAt l) (mergeLinks B L)))"
    by (rule sorted_sort_key)
  then show ?thesis
    by (simp add: merge_def Array_sort_sort_key sort_key_id_if_sorted)
qed

lemma merge_keeps_unmasked:
  assumes "distinct (ids B)" and "r \<in> set B" and "linkId r \<notin> linkId ` set L"
  shows "r \<in> set (merge B L)"
proof -
  have "recordOf (linkId r) (rev L) = None"
    using assms(3) by (rule recordOf_rev_None)
  moreover have "recordOf (linkId r) (rev B) = Some r"
    using assms(1,2) by (simp add: recordOf_distinct_rev recordOf_distinct_mem)
  ultimately have "filter (\<lambda>l. linkId l = linkId r) (mergeLinks B L) = [r]"
    by (rule filter_mergeLinks_baseline)
  then have "r \<in> set (filter (\<lambda>l. linkId l = linkId r) (mergeLinks B L))" by simp
  then show ?thesis by (simp add: merge_def Array_sort_sort_key)
qed

lemma forEach_set_dominated:
  assumes dist: "distinct (map linkId M)"
    and dom: "\<And>k r. find (\<lambda>l. linkId l = k) (rev L) = Some r \<Longrightarrow> r \<in> set M \<and> linkId r = k"
  shows "forEach_set L (map (\<lambda>l. (linkId l, l)) M) = map (\<lambda>l. (linkId l, l)) M"
proof (rule assoc_eqI)
  let ?m0 = "map (\<lambda>l. (linkId l, l)) M"
  have keys0: "map fst ?m0 = map linkId M" by (simp add: comp_def)
  show d0: "distinct (map fst (forEach_set L ?m0))" 
    by (rule distinct_forEach_set) (simp add: comp_def dist)
  have "linkId ` set L \<subseteq> fst ` set ?m0"
  proof
    fix k assume "k \<in> linkId ` set L"
    then obtain r where "find (\<lambda>l. linkId l = k) (rev L) = Some r"
      by (cases "find (\<lambda>l. linkId l = k) (rev L)") (auto simp: find_None_iff)
    then have "r \<in> set M \<and> linkId r = k" by (rule dom)
    then show "k \<in> fst ` set ?m0" by (auto simp: image_iff)
  qed
  then show "map fst (forEach_set L ?m0) = map fst ?m0"
    by (rule keys_forEach_set_within)
  show "map_of (forEach_set L ?m0) = map_of ?m0"
  proof
    fix k
    show "map_of (forEach_set L ?m0) k = map_of ?m0 k"
    proof (cases "find (\<lambda>l. linkId l = k) (rev L)")
      case None
      then show ?thesis by (simp add: map_of_forEach_set)
    next
      case (Some r)
      then have "r \<in> set M \<and> linkId r = k" by (rule dom)
      then have "map_of ?m0 k = Some r" using map_of_tagged [OF dist, of r] by simp
      then show ?thesis using Some by (simp add: map_of_forEach_set)
    qed
  qed
qed

lemma scenario_merge: "merge [baselineLink] [localLink] = [localLink]"
  by (simp add: merge_def mergeLinks_def forEach_set_def Map_values_def Array_sort_def
      baselineLink_def localLink_def)

lemma scenario_merge3:
  "merge [baselineLink, otherLink, upperLink] [localLink] = [upperLink, localLink, otherLink]"
  by (simp add: merge_def mergeLinks_def forEach_set_def Map_values_def Array_sort_def
      newestFirst_def baselineLink_def localLink_def otherLink_def upperLink_def)

text \<open>
  C4. The ids of the merged view are the ids of the baseline together with the ids of the
  local store, and no id occurs twice in the merged view.
\<close>

theorem merge_ids:
  "set (ids (merge B L)) = set (ids B) \<union> set (ids L) \<and> distinct (ids (merge B L))"
  by (simp add: ids_def merge_def Array_sort_sort_key set_ids_mergeLinks
      distinct_map_sort_key distinct_ids_mergeLinks)

text \<open>
  C1. For an id that the baseline and the local store both hold, the merged view holds
  one record with that id, and it is the record of the local store (the last one, should
  the local store hold the id several times): every field is the local one.
\<close>

theorem merge_local_wins:
  assumes "i \<in> set (ids B)" and "i \<in> set (ids L)"
  shows "\<exists>r. filter (\<lambda>l. linkId l = i) (merge B L) = [r] \<and> recordOf i (rev L) = Some r
    \<and> (distinct (ids L) \<longrightarrow> recordOf i L = Some r)"
proof -
  obtain r where r: "recordOf i (rev L) = Some r"
    using recordOf_rev_Some [OF assms(2)] by blast
  have "filter (\<lambda>l. linkId l = i) (merge B L) = [r]"
    by (simp add: merge_def Array_sort_sort_key filter_sort filter_mergeLinks [OF r])
  then show ?thesis using r by (auto simp: recordOf_distinct_rev)
qed

text \<open>
  The baseline holds id 1 with no clicks, the local store holds it with five: the merged
  record is the local one.
\<close>

theorem merge_local_wins_witness:
  "''1'' \<in> set (ids [baselineLink]) \<and> ''1'' \<in> set (ids [localLink])
   \<and> filter (\<lambda>l. linkId l = ''1'') (merge [baselineLink] [localLink]) = [localLink]
   \<and> clicks localLink = 5 \<and> clicks baselineLink = 0"
proof -
  have h1: "''1'' \<in> set (ids [baselineLink])" by (simp add: ids_def baselineLink_def)
  have h2: "''1'' \<in> set (ids [localLink])" by (simp add: ids_def localLink_def baselineLink_def)
  from merge_local_wins [OF h1 h2] obtain r where
    r: "filter (\<lambda>l. linkId l = ''1'') (merge [baselineLink] [localLink]) = [r]"
       "recordOf ''1'' (rev [localLink]) = Some r"
    by blast
  from r(2) have "r = localLink"
    by (simp add: recordOf_def localLink_def baselineLink_def)
  then show ?thesis using r(1) h1 h2 by (simp add: localLink_def baselineLink_def)
qed

lemma set_insertionOrder: "set (insertionOrder ks) = set ks"
  by (simp add: insertionOrder_def)

lemma ids_mergeLinks_order:
  "ids (mergeLinks B L) =
     insertionOrder (ids B) @ insertionOrder (filter (\<lambda>i. i \<notin> set (ids B)) (ids L))"
proof -
  have "map fst (forEach_set B []) = insertionOrder (ids B)"
    by (simp add: keys_forEach_set_order ids_def)
  moreover have "fst ` set (forEach_set B []) = set (ids B)"
    by (simp add: keys_forEach_set ids_def)
  ultimately show ?thesis
    by (simp add: ids_def ids_mergeLinks keys_forEach_set_order [of L])
qed

lemma mergeLinks_parts:
  "\<exists>bs ls. mergeLinks B L = bs @ ls \<and> set (ids bs) = set (ids B)
     \<and> set (ids ls) = set (ids L) - set (ids B)"
proof -
  let ?M = "mergeLinks B L"
  let ?n = "length (insertionOrder (ids B))"
  note c = ids_mergeLinks_order [of B L]
  have "ids (take ?n ?M) = take ?n (ids ?M)" by (simp add: ids_def take_map)
  then have 1: "ids (take ?n ?M) = insertionOrder (ids B)" by (simp add: c)
  have "ids (drop ?n ?M) = drop ?n (ids ?M)" by (simp add: ids_def drop_map)
  then have 2: "ids (drop ?n ?M) = insertionOrder (filter (\<lambda>i. i \<notin> set (ids B)) (ids L))"
    by (simp add: c)
  have "?M = take ?n ?M @ drop ?n ?M" by simp
  moreover have "set (ids (take ?n ?M)) = set (ids B)"
    by (simp only: 1 set_insertionOrder)
  moreover have "set (ids (drop ?n ?M)) = set (ids L) - set (ids B)"
    unfolding 2 set_insertionOrder by auto
  ultimately show ?thesis by blast
qed

lemma ties_baseline_first:
  "\<exists>pre post. filter (\<lambda>l. createdAt l = t) (merge B L) = pre @ post
     \<and> set (ids pre) \<subseteq> set (ids B) \<and> set (ids post) \<inter> set (ids B) = {}"
proof -
  obtain bs ls where p: "mergeLinks B L = bs @ ls" "set (ids bs) = set (ids B)"
      "set (ids ls) = set (ids L) - set (ids B)"
    using mergeLinks_parts by blast
  let ?P = "\<lambda>l. createdAt l = t"
  have "filter ?P (merge B L) = filter ?P bs @ filter ?P ls"
    by (simp add: merge_def Array_sort_stable p(1))
  moreover have "set (ids (filter ?P bs)) \<subseteq> set (ids B)"
    using p(2) by (auto simp: ids_def)
  moreover have "set (ids (filter ?P ls)) \<inter> set (ids B) = {}"
    using p(3) by (auto simp: ids_def)
  ultimately show ?thesis by blast
qed

text \<open>
  C6. The merged view is in descending order of \<open>createdAt\<close>. The records of one
  \<open>createdAt\<close> stand in the order of the values of the map, which holds the ids of the
  baseline first, each at its first occurrence, then the ids that only the local store
  holds: among the records of one \<open>createdAt\<close>, those with an id of the baseline come
  before those that only the local store holds.
\<close>

theorem merge_order:
  "sorted_wrt (\<lambda>a b. createdAt b \<le> createdAt a) (merge B L)
   \<and> filter (\<lambda>l. createdAt l = t) (merge B L) = filter (\<lambda>l. createdAt l = t) (mergeLinks B L)
   \<and> ids (mergeLinks B L) =
       insertionOrder (ids B) @ insertionOrder (filter (\<lambda>i. i \<notin> set (ids B)) (ids L))
   \<and> (\<exists>pre post. filter (\<lambda>l. createdAt l = t) (merge B L) = pre @ post
         \<and> set (ids pre) \<subseteq> set (ids B) \<and> set (ids post) \<inter> set (ids B) = {})"
  using ties_baseline_first [of t B L]
  by (simp add: merge_def sorted_newest Array_sort_stable ids_mergeLinks_order)

text \<open>
  C7. Merging the merged view with the same local store again gives the merged view.
\<close>

theorem merge_again:
  "merge (merge B L) L = merge B L"
proof -
  have dist: "distinct (map linkId (merge B L))" by (rule distinct_ids_merge)
  have "forEach_set (merge B L) [] = [] @ map (\<lambda>l. (linkId l, l)) (merge B L)"
    by (rule forEach_set_fresh) (simp_all add: dist)
  then have m0: "forEach_set (merge B L) [] = map (\<lambda>l. (linkId l, l)) (merge B L)" by simp
  have "forEach_set L (map (\<lambda>l. (linkId l, l)) (merge B L)) = map (\<lambda>l. (linkId l, l)) (merge B L)"
    using dist by (rule forEach_set_dominated) (rule merge_record)
  then have "mergeLinks (merge B L) L = merge B L"
    unfolding mergeLinks_def m0 by (simp add: Map_values_def comp_def)
  then have "Array_sort newestFirst (mergeLinks (merge B L) L) = merge B L"
    using sorted_merge [of B L] by simp
  then show ?thesis unfolding merge_def [of "merge B L" L] .
qed

section \<open>The local store\<close>

lemma getLinks_deleteLink:
  "getLinks (deleteLink i st) = filter (\<lambda>l. linkId l \<noteq> i) (getLinks st)"
  by (simp add: deleteLink_def Let_def)

lemma findIndex_found:
  "find P xs = Some x \<Longrightarrow>
   \<exists>pre post. xs = pre @ x # post \<and> (\<forall>y \<in> set pre. \<not> P y) \<and> P x \<and> 0 \<le> findIndex P xs
      \<and> (\<forall>y. xs[nat (findIndex P xs) := y] = pre @ y # post)"
proof (induction xs)
  case Nil
  then show ?case by simp
next
  case (Cons a xs)
  show ?case
  proof (cases "P a")
    case True
    then have "x = a" using Cons.prems by simp
    then have "a # xs = [] @ x # xs \<and> (\<forall>y \<in> set []. \<not> P y) \<and> P x \<and> 0 \<le> findIndex P (a # xs)
      \<and> (\<forall>y. (a # xs)[nat (findIndex P (a # xs)) := y] = [] @ y # xs)"
      using True by simp
    then show ?thesis by blast
  next
    case False
    then have "find P xs = Some x" using Cons.prems by simp
    from Cons.IH [OF this] obtain pre post where
      IH: "xs = pre @ x # post" "\<forall>y \<in> set pre. \<not> P y" "P x" "0 \<le> findIndex P xs"
        "\<forall>y. xs[nat (findIndex P xs) := y] = pre @ y # post"
      by blast
    have idx: "findIndex P (a # xs) = findIndex P xs + 1"
      using False IH(4) by (simp add: Let_def)
    then have "nat (findIndex P (a # xs)) = Suc (nat (findIndex P xs))"
      using IH(4) by simp
    then have "\<forall>y. (a # xs)[nat (findIndex P (a # xs)) := y] = (a # pre) @ y # post"
      using IH(5) by simp
    moreover have "a # xs = (a # pre) @ x # post" using IH(1) by simp
    moreover have "\<forall>y \<in> set (a # pre). \<not> P y" using IH(2) False by simp
    moreover have "0 \<le> findIndex P (a # xs)" using idx IH(4) by simp
    ultimately show ?thesis using IH(3) by blast
  qed
qed

lemma getLinks_saveLink_found:
  assumes "find (\<lambda>l. linkId l = linkId link) (getLinks st) = Some x"
  shows "\<exists>pre post. getLinks st = pre @ x # post \<and> linkId link \<notin> set (ids pre)
     \<and> getLinks (saveLink link st) = pre @ link # post"
proof -
  from findIndex_found [OF assms] obtain pre post where
    *: "getLinks st = pre @ x # post" "\<forall>y \<in> set pre. linkId y \<noteq> linkId link"
       "0 \<le> findIndex (\<lambda>l. linkId l = linkId link) (getLinks st)"
       "\<forall>y. (getLinks st)[nat (findIndex (\<lambda>l. linkId l = linkId link) (getLinks st)) := y] = pre @ y # post"
    by blast
  have "getLinks (saveLink link st) = pre @ link # post"
    using *(3,4) by (simp add: saveLink_def Let_def)
  moreover have "linkId link \<notin> set (ids pre)" using *(2) by (auto simp: ids_def)
  ultimately show ?thesis using *(1) by blast
qed

lemma incrementClicks_absent:
  "recordOf i (getLinks st) = None \<Longrightarrow> incrementClicks i st = st"
  by (simp add: incrementClicks_def recordOf_def)

lemma incrementClicks_present:
  assumes "recordOf i (getLinks st) = Some x"
  shows "\<exists>pre post. getLinks st = pre @ x # post \<and> i \<notin> set (ids pre) \<and> linkId x = i
     \<and> getLinks (incrementClicks i st) = pre @ x\<lparr>clicks := numberAdd (clicks x) 1\<rparr> # post"
proof -
  have id: "linkId x = i"
    using assms by (auto simp: recordOf_def find_Some_iff)
  let ?link = "x\<lparr>clicks := numberAdd (clicks x) 1\<rparr>"
  have "find (\<lambda>l. linkId l = linkId ?link) (getLinks st) = Some x"
    using assms id by (simp add: recordOf_def)
  from getLinks_saveLink_found [OF this] obtain pre post where
    "getLinks st = pre @ x # post" "linkId ?link \<notin> set (ids pre)"
    "getLinks (saveLink ?link st) = pre @ ?link # post"
    by blast
  moreover have "incrementClicks i st = saveLink ?link st"
    using assms by (simp add: incrementClicks_def recordOf_def)
  ultimately show ?thesis using id by auto
qed

lemma clicksOf_incrementClicks:
  "clicksOf i (getLinks (incrementClicks j st)) =
     (if i = j then map_option (\<lambda>c. numberAdd c 1) (clicksOf i (getLinks st))
      else clicksOf i (getLinks st))"
proof (cases "recordOf j (getLinks st)")
  case None
  then show ?thesis by (simp add: incrementClicks_absent clicksOf_def)
next
  case (Some x)
  from incrementClicks_present [OF this] obtain pre post where
    *: "getLinks st = pre @ x # post" "j \<notin> set (ids pre)" "linkId x = j"
       "getLinks (incrementClicks j st) = pre @ x\<lparr>clicks := numberAdd (clicks x) 1\<rparr> # post"
    by blast
  show ?thesis
  proof (cases "i = j")
    case True
    then show ?thesis
      using * by (simp add: clicksOf_def recordOf_split [OF *(2)] recordOf_pre_None)
  next
    case False
    then show ?thesis
      using * by (simp add: clicksOf_def recordOf_split [OF *(2)] split: option.splits)
  qed
qed

lemma safeInteger_between:
  "safeInteger c \<Longrightarrow> safeInteger (c + int n) \<Longrightarrow> k \<le> n \<Longrightarrow> safeInteger (c + int k)"
  by (simp add: safeInteger_def abs_less_iff)

lemma clicksOf_fold_safe:
  "clicksOf i (getLinks st) = Some c \<Longrightarrow> safeInteger c \<Longrightarrow>
   safeInteger (c + int (count_list js i)) \<Longrightarrow>
   clicksOf i (getLinks (fold incrementClicks js st)) = Some (c + int (count_list js i))"
proof (induction js arbitrary: st c)
  case Nil
  then show ?case by simp
next
  case (Cons j js)
  show ?case
  proof (cases "j = i")
    case True
    have n: "count_list (j # js) i = Suc (count_list js i)" using True by simp
    have s1: "safeInteger (c + 1)"
      using safeInteger_between [OF Cons.prems(2,3), of 1] n by simp
    have e: "c + 1 + int (count_list js i) = c + int (count_list (j # js) i)"
      by (simp only: n)
    have s2: "safeInteger (c + 1 + int (count_list js i))"
      using Cons.prems(3) by (simp only: e)
    have "clicksOf i (getLinks (incrementClicks j st)) = Some (c + 1)"
      using Cons.prems(1) True s1 by (simp add: clicksOf_incrementClicks numberAdd_safe)
    from Cons.IH [OF this s1 s2] show ?thesis
      by (simp only: e fold_simps)
  next
    case False
    then have n: "count_list (j # js) i = count_list js i" by simp
    have "clicksOf i (getLinks (incrementClicks j st)) = Some c"
      using Cons.prems(1) False by (simp add: clicksOf_incrementClicks)
    from Cons.IH [OF this Cons.prems(2)] Cons.prems(3) show ?thesis
      using n by simp
  qed
qed

text \<open>
  C8, amended. \<^verbatim>\<open>incrementClicks\<close> leaves the store as it is when no record has the id.
  Otherwise, when the counter plus one is a safe integer, the first record with the id gets
  exactly one click more and nothing else changes. After any sequence of calls the counter
  of an id has grown by exactly the number of calls for that id, whatever calls for other
  ids stand between them, when the counter is a safe integer before and after.
\<close>

theorem incrementClicks_safe:
  "(recordOf i (getLinks st) = None \<longrightarrow> incrementClicks i st = st)
   \<and> (recordOf i (getLinks st) = Some x \<and> safeInteger (clicks x + 1) \<longrightarrow>
        (\<exists>pre post. getLinks st = pre @ x # post \<and> i \<notin> set (ids pre) \<and> linkId x = i
           \<and> getLinks (incrementClicks i st) = pre @ x\<lparr>clicks := clicks x + 1\<rparr> # post))
   \<and> (recordOf i (getLinks st) = Some x \<and> safeInteger (clicks x)
        \<and> safeInteger (clicks x + int (count_list js i)) \<longrightarrow>
        clicksOf i (getLinks (fold incrementClicks js st)) =
          Some (clicks x + int (count_list js i)))"
proof -
  have 1: "recordOf i (getLinks st) = None \<longrightarrow> incrementClicks i st = st"
    by (simp add: incrementClicks_absent)
  have 2: "\<exists>pre post. getLinks st = pre @ x # post \<and> i \<notin> set (ids pre) \<and> linkId x = i
           \<and> getLinks (incrementClicks i st) = pre @ x\<lparr>clicks := clicks x + 1\<rparr> # post"
    if "recordOf i (getLinks st) = Some x" and "safeInteger (clicks x + 1)"
    using incrementClicks_present [OF that(1)] by (simp add: numberAdd_safe [OF that(2)])
  have 3: "clicksOf i (getLinks (fold incrementClicks js st)) =
          Some (clicks x + int (count_list js i))"
    if "recordOf i (getLinks st) = Some x" and "safeInteger (clicks x)"
      and "safeInteger (clicks x + int (count_list js i))"
  proof -
    have "clicksOf i (getLinks st) = Some (clicks x)" using that(1) by (simp add: clicksOf_def)
    then show ?thesis using that(2,3) by (rule clicksOf_fold_safe)
  qed
  from 1 2 3 show ?thesis by blast
qed

text \<open>
  A store of two records. The id 9 is absent; id 1 stands at five clicks and is called
  twice, with a call for id 2 in between.
\<close>

theorem incrementClicks_safe_witness:
  "recordOf ''9'' (getLinks (storeOf [localLink, otherLink])) = None
   \<and> incrementClicks ''9'' (storeOf [localLink, otherLink]) = storeOf [localLink, otherLink]
   \<and> recordOf ''1'' (getLinks (storeOf [localLink, otherLink])) = Some localLink
   \<and> clicks localLink = 5 \<and> safeInteger 5 \<and> safeInteger 6 \<and> safeInteger 7
   \<and> (\<exists>pre post. getLinks (storeOf [localLink, otherLink]) = pre @ localLink # post
         \<and> getLinks (incrementClicks ''1'' (storeOf [localLink, otherLink])) =
             pre @ localLink\<lparr>clicks := 6\<rparr> # post)
   \<and> clicksOf ''1''
        (getLinks (fold incrementClicks [''1'', ''2'', ''1''] (storeOf [localLink, otherLink])))
       = Some 7"
proof -
  let ?st = "storeOf [localLink, otherLink]"
  have a: "recordOf ''9'' (getLinks ?st) = None"
    by (simp add: recordOf_def localLink_fields otherLink_fields)
  have b: "recordOf ''1'' (getLinks ?st) = Some localLink"
    by (simp add: recordOf_def localLink_fields)
  have s: "safeInteger 5" "safeInteger 6" "safeInteger 7"
    by (simp_all add: safeInteger_def)
  have s1: "safeInteger (clicks localLink + 1)"
    by (simp add: localLink_fields safeInteger_def)
  have s0: "safeInteger (clicks localLink)"
    by (simp add: localLink_fields safeInteger_def)
  have s2: "safeInteger (clicks localLink + int (count_list [''1'', ''2'', ''1''] ''1''))"
    by (simp add: localLink_fields safeInteger_def)
  have n: "clicks localLink + int (count_list [''1'', ''2'', ''1''] ''1'') = 7"
    by (simp add: localLink_fields)
  from incrementClicks_safe [of "''9''" ?st localLink "[]"] a
  have 1: "incrementClicks ''9'' ?st = ?st" by blast
  from incrementClicks_safe [of "''1''" ?st localLink "[''1'', ''2'', ''1'']"] b s0 s1 s2
  have 2: "\<exists>pre post. getLinks ?st = pre @ localLink # post
         \<and> getLinks (incrementClicks ''1'' ?st) =
             pre @ localLink\<lparr>clicks := clicks localLink + 1\<rparr> # post"
    and 3: "clicksOf ''1'' (getLinks (fold incrementClicks [''1'', ''2'', ''1''] ?st)) =
          Some (clicks localLink + int (count_list [''1'', ''2'', ''1''] ''1''))"
    by blast+
  have step: "\<exists>pre post. getLinks ?st = pre @ localLink # post
         \<and> getLinks (incrementClicks ''1'' ?st) = pre @ localLink\<lparr>clicks := 6\<rparr> # post"
    using 2 by (simp add: localLink_fields)
  show ?thesis
    using a b s 1 step 3 n by (simp only: localLink_fields)
qed

text \<open>
  The claim as it stands, for every store, fails where the counter has left the safe
  integers: at \<open>2 ^ 53\<close> a call leaves the counter where it was.
\<close>

theorem incrementClicks_exact_counterexample:
  "recordOf ''1'' (getLinks (storeOf [hugeLink])) = Some hugeLink
   \<and> clicksOf ''1'' (getLinks (storeOf [hugeLink])) = Some 9007199254740992
   \<and> clicksOf ''1'' (getLinks (incrementClicks ''1'' (storeOf [hugeLink]))) =
       Some 9007199254740992
   \<and> clicksOf ''1'' (getLinks (incrementClicks ''1'' (storeOf [hugeLink]))) \<noteq>
       Some (9007199254740992 + 1)"
proof -
  have a: "recordOf ''1'' (getLinks (storeOf [hugeLink])) = Some hugeLink"
    by (simp add: recordOf_def hugeLink_fields)
  then have b: "clicksOf ''1'' (getLinks (storeOf [hugeLink])) = Some 9007199254740992"
    by (simp add: clicksOf_def hugeLink_fields)
  have c: "clicksOf ''1'' (getLinks (incrementClicks ''1'' (storeOf [hugeLink]))) =
       Some 9007199254740992"
    using b by (simp add: clicksOf_incrementClicks numberAdd_limit)
  show ?thesis using a b c by simp
qed

text \<open>
  C9. \<^verbatim>\<open>getLinks\<close> and \<^verbatim>\<open>getSettings\<close> return a value for every content of the
  store: the decoded value when the stored text decodes, the empty array and the empty
  settings otherwise, in particular when \<^verbatim>\<open>JSON.parse\<close> throws.
\<close>

theorem reads_never_fail:
  "getLinks st = (case macshorty_links_v1 st of Some (Encoded ls) \<Rightarrow> ls | _ \<Rightarrow> [])
   \<and> getSettings st =
       (case macshorty_settings_v1 st of Some (Encoded s) \<Rightarrow> s | _ \<Rightarrow> emptySettings)
   \<and> (getLinks_try st = Inl e \<longrightarrow> getLinks st = [])
   \<and> (getSettings_try st = Inl e' \<longrightarrow> getSettings st = emptySettings)"
  by (simp add: getLinks_def getLinks_try_def getSettings_def getSettings_try_def
      split: option.splits stored.splits)

theorem reads_never_fail_witness:
  "getLinks_try corruptStore = Inl SyntaxError \<and> getLinks corruptStore = []
   \<and> getSettings_try corruptStore = Inl SyntaxError \<and> getSettings corruptStore = emptySettings
   \<and> getLinks emptyStore = [] \<and> getLinks (storeOf [localLink]) = [localLink]"
proof -
  have a: "getLinks_try corruptStore = Inl SyntaxError"
    by (simp add: getLinks_try_def corruptStore_def)
  have b: "getSettings_try corruptStore = Inl SyntaxError"
    by (simp add: getSettings_try_def corruptStore_def)
  show ?thesis
    using reads_never_fail [of corruptStore SyntaxError SyntaxError]
      reads_never_fail [of emptyStore SyntaxError SyntaxError] a b
    by (simp add: emptyStore_def corruptStore_def)
qed

section \<open>The bootstrap\<close>

lemma links_initApp:
  "links (initApp fetched rawHash st) =
     Array_sort newestFirst
       (case fetched of Some staticLinks \<Rightarrow> mergeLinks staticLinks (getLinks st)
        | None \<Rightarrow> getLinks st)"
  by (simp add: initApp_def mount_def Let_def split: sum.splits option.splits)

lemma links_initApp_fetched:
  "links (initApp (Some B) rawHash st) = merge B (getLinks st)"
  by (simp add: links_initApp merge_def)

text \<open>
  C2. When the fragment is not empty, decodes, and no record of the merged snapshot has
  the decoded fragment as its slug, \<^verbatim>\<open>initApp\<close> ends in \<open>NOT_FOUND\<close>, not in the
  dashboard; nothing is counted and no address is replaced.
\<close>

theorem no_match_not_found:
  assumes "rawHash \<noteq> []"
    and "decodeURIComponent rawHash = Inr hash"
    and "\<forall>l \<in> set (links (initApp fetched rawHash st)). slug l \<noteq> hash"
  shows "mode (initApp fetched rawHash st) = NOT_FOUND
    \<and> mode (initApp fetched rawHash st) \<noteq> DASHBOARD
    \<and> replaced (initApp fetched rawHash st) = None
    \<and> storage (initApp fetched rawHash st) = st"
proof -
  have "find (\<lambda>l. slug l = hash) (links (initApp fetched rawHash st)) = None"
    using assms(3) by (simp add: find_None_iff)
  then show ?thesis
    using assms(1,2) unfolding links_initApp
    by (simp add: initApp_def mount_def Let_def)
qed

theorem no_match_not_found_witness:
  "''zzz'' \<noteq> [] \<and> decodeURIComponent ''zzz'' = Inr ''zzz''
   \<and> links (initApp (Some [baselineLink]) ''zzz'' (storeOf [localLink])) = [localLink]
   \<and> slug localLink \<noteq> ''zzz''
   \<and> mode (initApp (Some [baselineLink]) ''zzz'' (storeOf [localLink])) = NOT_FOUND
   \<and> replaced (initApp (Some [baselineLink]) ''zzz'' (storeOf [localLink])) = None"
proof -
  have h1: "''zzz'' \<noteq> []" by simp
  have l: "links (initApp (Some [baselineLink]) ''zzz'' (storeOf [localLink])) = [localLink]"
    by (simp add: links_initApp_fetched scenario_merge)
  have s: "slug localLink \<noteq> ''zzz''" by (simp add: localLink_def baselineLink_def)
  have "\<forall>l \<in> set (links (initApp (Some [baselineLink]) ''zzz'' (storeOf [localLink]))). slug l \<noteq> ''zzz''"
    using l s by simp
  from no_match_not_found [OF h1 decode_zzz this] show ?thesis
    using decode_zzz l s by simp
qed

text \<open>
  The older revision in \<^verbatim>\<open>src/App.tsx\<close> has no such mode: there the same run ends in the
  dashboard.
\<close>

lemma initApp_src_no_match:
  assumes "rawHash \<noteq> []"
    and "decodeURIComponent rawHash = Inr hash"
    and "find (\<lambda>l. slug l = hash) (links (initApp_src fetched rawHash st)) = None"
  shows "mode (initApp_src fetched rawHash st) = DASHBOARD_src"
proof -
  have l: "links (initApp_src fetched rawHash st) =
     Array_sort newestFirst
       (case fetched of Some staticLinks \<Rightarrow> mergeLinks staticLinks (getLinks st)
        | None \<Rightarrow> getLinks st)"
    by (simp add: initApp_src_def mount_def Let_def split: sum.splits option.splits)
  show ?thesis using assms unfolding l
    by (simp add: initApp_src_def mount_def Let_def)
qed

text \<open>
  C5. The fragment is decoded first and the decoded text compared with the slugs, by
  equality of strings; of several records with that slug the first one of the snapshot is
  the one redirected to.
\<close>

theorem first_match_resolves:
  assumes "rawHash \<noteq> []"
    and "decodeURIComponent rawHash = Inr hash"
    and "links (initApp fetched rawHash st) = pre @ m # post"
    and "slug m = hash"
    and "\<forall>l \<in> set pre. slug l \<noteq> hash"
  shows "mode (initApp fetched rawHash st) = REDIRECT_PROCESS
    \<and> redirectData (initApp fetched rawHash st) = Some (originalUrl m, hash)
    \<and> replaced (initApp fetched rawHash st) = Some (originalUrl m)
    \<and> storage (initApp fetched rawHash st) = incrementClicks (linkId m) st
    \<and> uncaught (initApp fetched rawHash st) = None"
proof -
  have "find (\<lambda>l. slug l = hash) (links (initApp fetched rawHash st)) = Some m"
    using assms(3,4,5) by (rule find_first)
  then show ?thesis
    using assms(1,2,4) unfolding links_initApp
    by (simp add: initApp_def mount_def Let_def)
qed

text \<open>
  The fragment \<^verbatim>\<open>%61bc\<close> decodes to \<^verbatim>\<open>abc\<close>. The newest record has the slug
  \<^verbatim>\<open>ABC\<close> and is passed over; of the two records with the slug \<^verbatim>\<open>abc\<close> the newer one
  is taken, and its counter in the local store goes from five to six.
\<close>

theorem first_match_resolves_witness:
  "''%61bc'' \<noteq> [] \<and> decodeURIComponent ''%61bc'' = Inr ''abc''
   \<and> links (initApp (Some [baselineLink, otherLink, upperLink]) ''%61bc'' (storeOf [localLink]))
       = [upperLink] @ localLink # [otherLink]
   \<and> slug upperLink = ''ABC'' \<and> slug localLink = ''abc'' \<and> slug otherLink = ''abc''
   \<and> mode (initApp (Some [baselineLink, otherLink, upperLink]) ''%61bc'' (storeOf [localLink]))
       = REDIRECT_PROCESS
   \<and> redirectData (initApp (Some [baselineLink, otherLink, upperLink]) ''%61bc'' (storeOf [localLink]))
       = Some (''https://x.com'', ''abc'')
   \<and> replaced (initApp (Some [baselineLink, otherLink, upperLink]) ''%61bc'' (storeOf [localLink]))
       = Some ''https://x.com''
   \<and> clicksOf ''1''
        (getLinks (storage
          (initApp (Some [baselineLink, otherLink, upperLink]) ''%61bc'' (storeOf [localLink]))))
       = Some 6"
proof -
  let ?app = "initApp (Some [baselineLink, otherLink, upperLink]) ''%61bc'' (storeOf [localLink])"
  have h1: "''%61bc'' \<noteq> []" by simp
  have l: "links ?app = [upperLink] @ localLink # [otherLink]"
    by (simp add: links_initApp_fetched scenario_merge3)
  have s: "slug upperLink = ''ABC''" "slug localLink = ''abc''" "slug otherLink = ''abc''"
    by (simp_all add: upperLink_def localLink_def baselineLink_def otherLink_def)
  have p: "\<forall>l \<in> set [upperLink]. slug l \<noteq> ''abc''" using s by simp
  have "clicksOf ''1'' (getLinks (storeOf [localLink])) = Some 5"
    by (simp add: clicksOf_def recordOf_def localLink_fields)
  then have c: "clicksOf ''1'' (getLinks (incrementClicks (linkId localLink) (storeOf [localLink]))) = Some 6"
    by (simp add: clicksOf_incrementClicks localLink_fields numberAdd_safe safeInteger_def)
  have u: "originalUrl localLink = ''https://x.com''" by (simp add: localLink_def baselineLink_def)
  from first_match_resolves [OF h1 decode_abc l s(2) p] show ?thesis
    using decode_abc l s c u by simp
qed

text \<open>
  A fragment that does not decode: \<^verbatim>\<open>decodeURIComponent\<close> throws, nothing catches the
  exception, and no call of \<^verbatim>\<open>setMode\<close> is reached.
\<close>

lemma malformed_fragment_stays:
  assumes "rawHash \<noteq> []" and "decodeURIComponent rawHash = Inl e"
  shows "mode (initApp fetched rawHash st) = BOOTSTRAP
    \<and> uncaught (initApp fetched rawHash st) = Some e
    \<and> replaced (initApp fetched rawHash st) = None
    \<and> storage (initApp fetched rawHash st) = st
    \<and> mode (initApp_src fetched rawHash st) = LOADING
    \<and> uncaught (initApp_src fetched rawHash st) = Some e"
  using assms by (simp add: initApp_def initApp_src_def mount_def Let_def)

text \<open>
  C3. The fragment \<^verbatim>\<open>%\<close> is not empty and does not decode. \<^verbatim>\<open>initApp\<close> ends with the
  \<^verbatim>\<open>URIError\<close> uncaught and the mode where it began, \<open>BOOTSTRAP\<close> (\<open>LOADING\<close> in the
  older revision): the run does not reach \<open>NOT_FOUND\<close>, and it does not reach the dashboard.
\<close>

theorem malformed_fragment_stuck:
  "''%'' \<noteq> [] \<and> decodeURIComponent ''%'' = Inl URIError
   \<and> mode (initApp None ''%'' emptyStore) = BOOTSTRAP
   \<and> mode (initApp None ''%'' emptyStore) \<noteq> NOT_FOUND
   \<and> mode (initApp None ''%'' emptyStore) \<noteq> DASHBOARD
   \<and> uncaught (initApp None ''%'' emptyStore) = Some URIError
   \<and> mode (initApp_src None ''%'' emptyStore) = LOADING"
  using malformed_fragment_stays [of "''%''" URIError None emptyStore] decode_percent
  by simp

section \<open>The view of the dashboard\<close>

lemma links_refreshLinks:
  "links (refreshLinks app) = merge (links app) (getLinks (storage app))"
  by (simp add: refreshLinks_def merge_def mergeLinks_def Let_def)

lemma storage_refreshLinks: "storage (refreshLinks app) = storage app"
  by (simp add: refreshLinks_def Let_def)

lemma links_handleDelete:
  "links (handleDelete True i app) =
     merge (links app) (filter (\<lambda>l. linkId l \<noteq> i) (getLinks (storage app)))"
  by (simp add: handleDelete_def links_refreshLinks getLinks_deleteLink)

text \<open>
  C10. \<^verbatim>\<open>refreshLinks\<close> keeps every id of the view; so an id that was in the view is
  still in it after \<^verbatim>\<open>handleDelete\<close> has deleted it from the local store and refreshed,
  and in a view without repeated ids the record itself is still the one displayed.
\<close>

theorem refresh_keeps:
  "set (ids (links app)) \<subseteq> set (ids (links (refreshLinks app)))
   \<and> (i \<in> set (ids (links app)) \<longrightarrow> i \<in> set (ids (links (handleDelete True i app))))
   \<and> (distinct (ids (links app)) \<and> r \<in> set (links app) \<longrightarrow>
        r \<in> set (links (handleDelete True (linkId r) app)))"
proof -
  have keep: "set (ids B) \<subseteq> set (ids (merge B L))" for B L
    using set_ids_merge [of B L] by (simp add: ids_def)
  have 1: "set (ids (links app)) \<subseteq> set (ids (links (refreshLinks app)))"
    by (simp only: links_refreshLinks keep)
  have 2: "set (ids (links app)) \<subseteq> set (ids (links (handleDelete True i app)))"
    by (simp only: links_handleDelete keep)
  have 3: "r \<in> set (links (handleDelete True (linkId r) app))"
    if "distinct (ids (links app))" and "r \<in> set (links app)"
    unfolding links_handleDelete using that by (rule merge_keeps_unmasked) fastforce
  from 1 2 3 show ?thesis by blast
qed

theorem refresh_keeps_witness:
  "''1'' \<in> set (ids (links ((mount DASHBOARD (storeOf [localLink]))\<lparr>links := [localLink]\<rparr>)))
   \<and> distinct (ids (links ((mount DASHBOARD (storeOf [localLink]))\<lparr>links := [localLink]\<rparr>)))
   \<and> localLink \<in> set (links ((mount DASHBOARD (storeOf [localLink]))\<lparr>links := [localLink]\<rparr>))
   \<and> getLinks (storage
        (handleDelete True ''1'' ((mount DASHBOARD (storeOf [localLink]))\<lparr>links := [localLink]\<rparr>))) = []
   \<and> ''1'' \<in> set (ids (links
        (handleDelete True ''1'' ((mount DASHBOARD (storeOf [localLink]))\<lparr>links := [localLink]\<rparr>))))
   \<and> localLink \<in> set (links
        (handleDelete True ''1'' ((mount DASHBOARD (storeOf [localLink]))\<lparr>links := [localLink]\<rparr>)))"
proof -
  let ?app = "(mount DASHBOARD (storeOf [localLink]))\<lparr>links := [localLink]\<rparr>"
  have i: "linkId localLink = ''1''" by (simp add: localLink_def baselineLink_def)
  have a: "''1'' \<in> set (ids (links ?app))" by (simp add: ids_def i)
  have b: "distinct (ids (links ?app))" by (simp add: ids_def)
  have c: "localLink \<in> set (links ?app)" by simp
  have d: "getLinks (storage (handleDelete True ''1'' ?app)) = []"
    by (simp add: handleDelete_def storage_refreshLinks getLinks_deleteLink mount_def i)
  show ?thesis
    using refresh_keeps [of ?app "''1''" localLink] a b c d i by simp
qed

end
